theory Spec2Isabelle
  imports Main "HOL-Library.Sublist"
begin

section \<open>Python values used by polyplay.py\<close>

text \<open>
  A Python \<open>str\<close> is a sequence of Unicode code points and \<open>len\<close> counts code points,
  so a string is modelled as a list of code point numbers. \<open>ustr\<close> turns a literal
  into such a list. Python integers are unbounded: \<open>int\<close>.
\<close>

type_synonym codepoint = nat
type_synonym pystr = "codepoint list"

definition ustr :: "string \<Rightarrow> pystr" where
  "ustr s = map of_char s"

datatype py_error = IndexError | ValueError

text \<open>\<open>s * k\<close> on a string: \<open>k\<close> copies of \<open>s\<close>, the empty string when \<open>k \<le> 0\<close>.\<close>

definition py_repeat :: "pystr \<Rightarrow> int \<Rightarrow> pystr" where
  "py_repeat s k = concat (replicate (nat k) s)"

text \<open>
  A slice bound as CPython adjusts it: a negative bound counts from the end, and the
  result is clamped into \<open>[0, len]\<close>.
\<close>

definition slice_bound :: "nat \<Rightarrow> int \<Rightarrow> nat" where
  "slice_bound n k = (if k < 0 then nat (max (k + int n) 0) else min (nat k) n)"

text \<open>\<open>xs[a:b]\<close> and \<open>xs[:b]\<close>; slicing never raises.\<close>

definition py_slice :: "'a list \<Rightarrow> int \<Rightarrow> int \<Rightarrow> 'a list" where
  "py_slice xs a b =
     (let lo = slice_bound (length xs) a; hi = slice_bound (length xs) b
      in take (hi - lo) (drop lo xs))"

definition py_slice_to :: "'a list \<Rightarrow> int \<Rightarrow> 'a list" where
  "py_slice_to xs b = take (slice_bound (length xs) b) xs"

section \<open>Config\<close>

text \<open>The fields of class \<open>Config\<close> that the modelled functions read, with its values.\<close>

record config =
  scrolling_msg_len :: int
  english_text_only :: bool
  default_text :: pystr
  error_text :: pystr

definition Config :: config where
  "Config = \<lparr> scrolling_msg_len = 15, english_text_only = False,
              default_text = ustr ''default text'', error_text = ustr ''error text'' \<rparr>"

section \<open>Utils\<close>

text \<open>
  \<open>Utils.center_text\<close>:
  \<^verbatim>\<open>
  if len(text_to_center) >= msg_display_len:
      return text_to_center[:msg_display_len]
  left_padding = " " * ((msg_display_len - len(text_to_center)) // 2)
  right_padding = " " * (msg_display_len - (len(left_padding) + len(text_to_center)) - 1)
  return f"{left_padding}{text_to_center}{right_padding}"
  \<close>
\<close>

definition center_text :: "pystr \<Rightarrow> int \<Rightarrow> pystr" where
  "center_text text_to_center msg_display_len =
     (if int (length text_to_center) \<ge> msg_display_len
      then py_slice_to text_to_center msg_display_len
      else
        let left_padding =
              py_repeat (ustr '' '') ((msg_display_len - int (length text_to_center)) div 2);
            right_padding =
              py_repeat (ustr '' '')
                (msg_display_len - (int (length left_padding) + int (length text_to_center)) - 1)
        in left_padding @ text_to_center @ right_padding)"

text \<open>
  \<open>Utils.is_english\<close>: \<open>text.encode("utf-8").decode("ascii")\<close> succeeds exactly when every
  code point is below 128.
\<close>

definition is_english :: "pystr \<Rightarrow> bool" where
  "is_english text_to_check = list_all (\<lambda>c. c < 128) text_to_check"

text \<open>\<open>s.split(sep)\<close> for a one-character separator; the result is never empty.\<close>

fun py_split :: "codepoint \<Rightarrow> pystr \<Rightarrow> pystr list" where
  "py_split sep [] = [[]]"
| "py_split sep (c # cs) =
     (if c = sep then [] # py_split sep cs
      else (case py_split sep cs of [] \<Rightarrow> [[c]] | f # fs \<Rightarrow> (c # f) # fs))"

text \<open>\<open>sep.join(parts)\<close>.\<close>

fun py_join :: "pystr \<Rightarrow> pystr list \<Rightarrow> pystr" where
  "py_join sep [] = []"
| "py_join sep [x] = x"
| "py_join sep (x # y # ys) = x @ sep @ py_join sep (y # ys)"

text \<open>\<open>re.sub(r"%20", " ", s)\<close>: every occurrence, left to right, without overlap.\<close>

fun sub_percent20 :: "pystr \<Rightarrow> pystr" where
  "sub_percent20 (a # b # c # rest) =
     (if [a, b, c] = ustr ''%20'' then ustr '' '' @ sub_percent20 rest
      else a # sub_percent20 (b # c # rest))"
| "sub_percent20 s = s"

text \<open>
  \<open>Utils.clean_track_title\<close>: \<open>re.sub(r"%20", " ", title_to_clean.split("/")[-1])\<close>.
  The list that \<open>split\<close> returns has an element, so \<open>[-1]\<close> is its last one.
\<close>

definition clean_track_title :: "pystr \<Rightarrow> pystr" where
  "clean_track_title title_to_clean =
     sub_percent20 (last (py_split (of_char CHR ''/'') title_to_clean))"

section \<open>Player\<close>

text \<open>
  A \<open>Player\<close> object. The class defines no \<open>__eq__\<close>, so \<open>list.remove\<close> compares players
  by identity: \<open>oid\<close> is the identity of the object. The shared \<open>config\<close> is passed to
  the functions that read it.
\<close>

record player =
  oid :: nat
  player_name :: pystr
  display_text :: pystr
  display_text_start_index :: int

text \<open>\<open>Player.__init__\<close>, for the object allocated at \<open>oid\<close>.\<close>

definition Player :: "nat \<Rightarrow> pystr \<Rightarrow> player" where
  "Player i name =
     \<lparr> oid = i, player_name = name, display_text = [], display_text_start_index = 0 \<rparr>"

text \<open>A new object is none of the objects the list holds.\<close>

definition new_oid :: "player list \<Rightarrow> nat" where
  "new_oid pl = Suc (foldr max (map oid pl) 0)"

definition same_object :: "player \<Rightarrow> player \<Rightarrow> bool" where
  "same_object a b = (oid a = oid b)"

text \<open>
  \<open>Player.metadata\<close>. The answers of the external utility are inputs: whether the
  player is among the available players, and the decoded output of the metadata query.
  \<open>artists\<close> is a list, so \<open>artists != ""\<close> holds and the line that tests it keeps
  \<open>artists\<close>; the unpacking has at least three elements to work on.
\<close>

definition metadata :: "config \<Rightarrow> bool \<Rightarrow> pystr \<Rightarrow> pystr" where
  "metadata cfg player_exists raw =
     (if \<not> player_exists then []
      else
        let md = py_split (of_char CHR '','') raw in
        if length md < 3 then center_text (error_text cfg) (scrolling_msg_len cfg)
        else
          let title = hd md;
              artists = butlast (tl md);
              vlc_title = last md;
              title = (if title \<noteq> [] then title else vlc_title);
              title = (if english_text_only cfg
                       then (if is_english title then title else error_text cfg)
                       else title);
              artists = (if english_text_only cfg
                         then map (\<lambda>artist. if is_english artist then artist else error_text cfg)
                                artists
                         else artists);
              artists_str = py_join (ustr '','') artists
          in title @ ustr '' - '' @ artists_str)"

text \<open>
  What the metadata query of \<open>Player.metadata\<close> returns for a player that reports
  \<open>title\<close>, \<open>artist\<close> and \<open>url\<close>. The format string passed to the utility is
  \<^verbatim>\<open>r"'{{title}},{{artist}},{{xesam:url}}"\<close>, handed over as one argument without a
  shell: it opens with a quote character (code point 39) that is part of the output, and
  the utility ends its output with a newline (code point 10).
\<close>

definition playerctl_record :: "pystr \<Rightarrow> pystr \<Rightarrow> pystr \<Rightarrow> pystr" where
  "playerctl_record title artist url =
     of_char (CHR 0x27) # title @ ustr '','' @ artist @ ustr '','' @ url @ [of_char (CHR 0x0A)]"

section \<open>PolyPlay\<close>

record polyplay =
  player_list :: "player list"
  display_index :: int

definition PolyPlay :: polyplay where
  "PolyPlay = \<lparr> player_list = [], display_index = 0 \<rparr>"

text \<open>
  \<open>PolyPlay._update_scrolling_text\<close>. \<open>is_playing\<close> and \<open>md\<close> are what
  \<open>player.is_playing\<close> and \<open>player.metadata\<close> answer; the result is the returned string
  and the player as the call leaves it. \<open>len(full_media_text)\<close> is at least 2, so
  \<open>%\<close> does not raise.
\<close>

definition update_scrolling_text :: "config \<Rightarrow> bool \<Rightarrow> pystr \<Rightarrow> player \<Rightarrow> pystr \<times> player" where
  "update_scrolling_text cfg is_playing md p =
     (if \<not> is_playing then
        (let p1 = (if display_text p = []
                   then p\<lparr>display_text := center_text md (scrolling_msg_len cfg)\<rparr> else p)
         in (display_text p1, p1))
      else
        let spacing = py_repeat (ustr '' '') 2;
            full_media_text = md @ spacing;
            trunc_start = display_text_start_index p;
            trunc_end = trunc_start + scrolling_msg_len cfg;
            scrolling_text = py_slice full_media_text trunc_start trunc_end;
            padding_needed = (int (length scrolling_text) < scrolling_msg_len cfg);
            padding_text =
              (if padding_needed
               then py_slice_to full_media_text
                      ((display_text_start_index p + scrolling_msg_len cfg)
                         mod int (length full_media_text))
               else []);
            scrolling_text = scrolling_text @ padding_text;
            p1 = p\<lparr>display_text_start_index :=
                     (display_text_start_index p + 1) mod int (length full_media_text)\<rparr>;
            p2 = p1\<lparr>display_text := scrolling_text\<rparr>
        in (scrolling_text, p2))"

text \<open>\<open>xs.remove(x)\<close>: drops the first element equal to \<open>x\<close>, ValueError when there is none.\<close>

fun py_remove :: "('a \<Rightarrow> 'a \<Rightarrow> bool) \<Rightarrow> 'a \<Rightarrow> 'a list \<Rightarrow> py_error + 'a list" where
  "py_remove eq x [] = Inl ValueError"
| "py_remove eq x (y # ys) =
     (if eq y x then Inr ys
      else (case py_remove eq x ys of Inl e \<Rightarrow> Inl e | Inr zs \<Rightarrow> Inr (y # zs)))"

text \<open>
  The first loop of \<open>PolyPlay._update_player_list\<close>:
  \<^verbatim>\<open>
  for existing_player in self.player_list:
      if existing_player.player_name not in new_list:
          self.player_list.remove(existing_player)
      if existing_player.player_name in new_list:
          new_list.remove(existing_player.player_name)
  \<close>
  The list iterator holds a position \<open>i\<close>; each round it stops when \<open>i\<close> has reached the
  current length of the list, and otherwise yields the element at \<open>i\<close> and moves to
  \<open>i + 1\<close>. The loop body changes the list that is being iterated.
\<close>

function remove_loop ::
  "nat \<Rightarrow> player list \<Rightarrow> pystr list \<Rightarrow> py_error + (player list \<times> pystr list)" where
  "remove_loop i pl new_list =
     (if i < length pl then
        (let existing_player = pl ! i in
         case (if player_name existing_player \<notin> set new_list
               then py_remove same_object existing_player pl else Inr pl) of
           Inl e \<Rightarrow> Inl e
         | Inr pl1 \<Rightarrow>
             (case (if player_name existing_player \<in> set new_list
                    then py_remove (=) (player_name existing_player) new_list
                    else Inr new_list) of
                Inl e \<Rightarrow> Inl e
              | Inr new_list1 \<Rightarrow> remove_loop (Suc i) pl1 new_list1))
      else Inr (pl, new_list))"
  by pat_completeness auto
termination
proof (relation "measure (\<lambda>(i, pl, new_list). length pl - i)")
  show "wf (measure (\<lambda>(i, pl, new_list). length pl - i))"
    by simp
next
  fix i :: nat and pl pl1 :: "player list" and new_list new_list1 :: "pystr list"
    and existing_player :: player
  assume i: "i < length pl"
    and rm: "(if player_name existing_player \<notin> set new_list
              then py_remove same_object existing_player pl else Inr pl) = Inr pl1"
  have shorter: "length zs \<le> length ys" if "py_remove eq x ys = Inr zs"
    for eq :: "player \<Rightarrow> player \<Rightarrow> bool" and x ys zs
    using that by (induction ys arbitrary: zs) (auto split: if_splits sum.splits)
  have "length pl1 \<le> length pl"
    using rm shorter by (auto split: if_splits)
  then show "((Suc i, pl1, new_list1), i, pl, new_list)
               \<in> measure (\<lambda>(i, pl, new_list). length pl - i)"
    using i by simp
qed

declare remove_loop.simps [simp del]

text \<open>
  The second loop of \<open>PolyPlay._update_player_list\<close>:
  \<^verbatim>\<open>
  for player in new_list:
      new_player = Player(player, self.config)
      if new_player.is_stopped:
          continue
      self.player_list.append(new_player)
  \<close>
  \<open>is_stopped\<close> is the status the external utility reports for a player name.
\<close>

fun add_loop :: "(pystr \<Rightarrow> bool) \<Rightarrow> pystr list \<Rightarrow> player list \<Rightarrow> player list" where
  "add_loop is_stopped [] pl = pl"
| "add_loop is_stopped (name # rest) pl =
     (let new_player = Player (new_oid pl) name in
      if is_stopped name then add_loop is_stopped rest pl
      else add_loop is_stopped rest (pl @ [new_player]))"

text \<open>
  \<open>PolyPlay._update_player_list\<close>; \<open>available_players\<close> is what
  \<open>Player.get_available_players()\<close> returns.
\<close>

definition update_player_list ::
  "(pystr \<Rightarrow> bool) \<Rightarrow> pystr list \<Rightarrow> polyplay \<Rightarrow> py_error + polyplay" where
  "update_player_list is_stopped available_players self =
     (let new_list = available_players in
      if length new_list \<noteq> length (player_list self) then
        (case remove_loop 0 (player_list self) new_list of
           Inl e \<Rightarrow> Inl e
         | Inr (pl, new_list1) \<Rightarrow>
             Inr (self\<lparr>player_list :=
                         (if length new_list1 > 0 then add_loop is_stopped new_list1 pl
                          else pl)\<rparr>))
      else Inr self)"

text \<open>\<open>xs[i]\<close>: a negative index counts from the end; IndexError out of range.\<close>

definition py_getitem :: "'a list \<Rightarrow> int \<Rightarrow> py_error + 'a" where
  "py_getitem xs i =
     (let n = int (length xs); j = (if i < 0 then i + n else i)
      in if 0 \<le> j \<and> j < n then Inr (xs ! nat j) else Inl IndexError)"

text \<open>
  \<open>PolyPlay._select_player_to_display\<close>: the returned player (or \<open>None\<close>, or the
  exception) and the object as the call leaves it.
\<close>

definition select_player_to_display :: "polyplay \<Rightarrow> (py_error + player option) \<times> polyplay" where
  "select_player_to_display self =
     (if length (player_list self) < 1 then (Inr None, self\<lparr>display_index := 0\<rparr>)
      else if length (player_list self) = 1 then
        (let self1 = self\<lparr>display_index := 0\<rparr>
         in (map_sum id Some (py_getitem (player_list self1) (display_index self1)), self1))
      else
        let self1 = (if display_index self \<ge> int (length (player_list self)) - 1
                     then self\<lparr>display_index :=
                                  display_index self mod int (length (player_list self))\<rparr>
                     else self);
            self2 = (if display_index self1 < 0
                     then self1\<lparr>display_index := int (length (player_list self1)) - 1\<rparr>
                     else self1)
        in (map_sum id Some (py_getitem (player_list self2) (display_index self2)), self2))"

text \<open>\<open>PolyPlay.cycle_player\<close> and \<open>PolyPlay.reverse_cycle_player\<close>.\<close>

definition cycle_player :: "polyplay \<Rightarrow> polyplay" where
  "cycle_player self =
     (if length (player_list self) \<le> 1 then self\<lparr>display_index := 0\<rparr>
      else self\<lparr>display_index := display_index self + 1\<rparr>)"

definition reverse_cycle_player :: "polyplay \<Rightarrow> polyplay" where
  "reverse_cycle_player self =
     (if length (player_list self) \<le> 1 then self\<lparr>display_index := 0\<rparr>
      else self\<lparr>display_index := display_index self - 1\<rparr>)"

section \<open>The first loop, by recursion on the registry\<close>

text \<open>
  What the first loop of \<open>_update_player_list\<close> computes, read off the list it walks:
  a player whose name is in \<open>new_list\<close> is kept and one occurrence of its
  name leaves \<open>new_list\<close>; a player whose name is not there is dropped, and the iterator
  then passes over the player that followed it, which stays as it is.
  \<open>remove_loop_sweep\<close> below proves that the loop computes this.
\<close>

fun sweep :: "player list \<Rightarrow> pystr list \<Rightarrow> player list \<times> pystr list" where
  "sweep [] new_list = ([], new_list)"
| "sweep (p # ps) new_list =
     (if player_name p \<in> set new_list
      then (p # fst (sweep ps (remove1 (player_name p) new_list)),
            snd (sweep ps (remove1 (player_name p) new_list)))
      else (case ps of
              [] \<Rightarrow> ([], new_list)
            | q # qs \<Rightarrow> (q # fst (sweep qs new_list), snd (sweep qs new_list))))"

text \<open>No two neighbours in the registry are both missing from the snapshot \<open>S\<close>.\<close>

fun no_adjacent_absent :: "pystr list \<Rightarrow> player list \<Rightarrow> bool" where
  "no_adjacent_absent S (p # q # ps) =
     ((player_name p \<in> set S \<or> player_name q \<in> set S) \<and> no_adjacent_absent S (q # ps))"
| "no_adjacent_absent S ps = True"

section \<open>Inputs used in the examples\<close>

definition nothing_stopped :: "pystr \<Rightarrow> bool" where
  "nothing_stopped name = False"

definition tracking_a :: polyplay where
  "tracking_a = \<lparr> player_list = [Player 1 (ustr ''a'')], display_index = 0 \<rparr>"

definition tracking_b :: polyplay where
  "tracking_b = \<lparr> player_list = [Player 2 (ustr ''b'')], display_index = 0 \<rparr>"

definition tracking_a_b :: polyplay where
  "tracking_a_b =
     \<lparr> player_list = [Player 1 (ustr ''a''), Player 2 (ustr ''b'')], display_index = 0 \<rparr>"

definition tracking_a_b_c :: polyplay where
  "tracking_a_b_c =
     \<lparr> player_list = [Player 1 (ustr ''a''), Player 2 (ustr ''b''), Player 3 (ustr ''c'')],
       display_index = 0 \<rparr>"

text \<open>A configuration whose error placeholder has the shape of a title and an artist.\<close>

definition hyphen_config :: config where
  "hyphen_config = Config\<lparr> scrolling_msg_len := 5, error_text := ustr ''a - b'' \<rparr>"

section \<open>Facts about the Python values\<close>

lemma length_py_repeat_space [simp]: "length (py_repeat (ustr '' '') k) = nat k"
  by (simp add: py_repeat_def ustr_def)

lemma py_slice_to_nonneg: "0 \<le> b \<Longrightarrow> py_slice_to xs b = take (nat b) xs"
  by (simp add: py_slice_to_def slice_bound_def min_def)

section \<open>Centering\<close>

text \<open>
  C4 (as amended). Centering the 3-character text "abc" into a target width of 7 puts
  2 spaces on the left (floor((7-3)/2)) and 1 space on the right (7 - 3 - 2 - 1), so the
  result is the 6-character string "  abc ".
\<close>

theorem center_text_abc_7:
  "center_text (ustr ''abc'') 7 = ustr ''  abc '' \<and> length (center_text (ustr ''abc'') 7) = 6"
  by code_simp

text \<open>C4 as stated fails: the centred string does not have 7 characters.\<close>

theorem center_text_abc_7_not_7:
  "length (center_text (ustr ''abc'') 7) \<noteq> 7"
  by code_simp

text \<open>
  C10. A text strictly shorter than the target width is centred into exactly
  target - 1 characters; a text at least as long as a (non-negative) target width is cut
  to its first target characters.
\<close>

theorem center_text_length:
  "(int (length t) < target \<longrightarrow> length (center_text t target) = nat (target - 1)) \<and>
   (0 \<le> target \<longrightarrow> target \<le> int (length t) \<longrightarrow> center_text t target = take (nat target) t)"
proof (intro conjI impI)
  assume short: "int (length t) < target"
  define l where "l = (target - int (length t)) div 2"
  have l0: "0 \<le> l" and l1: "l + int (length t) + 1 \<le> target"
    using short by (simp_all add: l_def)
  have "length (center_text t target) = nat l + length t + nat (target - (l + int (length t)) - 1)"
    using short l0 by (simp add: center_text_def Let_def l_def [symmetric])
  also have "\<dots> = nat (target - 1)"
    using l0 l1 by linarith
  finally show "length (center_text t target) = nat (target - 1)" .
next
  assume "0 \<le> target" "target \<le> int (length t)"
  then show "center_text t target = take (nat target) t"
    by (simp add: center_text_def py_slice_to_nonneg)
qed

theorem center_text_length_witness:
  "length (center_text (ustr ''abc'') 7) = 6 \<and> center_text (ustr ''abcdefgh'') 7 = ustr ''abcdefg''"
  using center_text_length [of "ustr ''abc''" 7] center_text_length [of "ustr ''abcdefgh''" 7]
  by (simp add: ustr_def)

section \<open>Registry reconciliation\<close>

lemma py_remove_eq: "x \<in> set xs \<Longrightarrow> py_remove (=) x xs = Inr (remove1 x xs)"
  by (induction xs) auto

lemma py_remove_same_object_nth:
  "distinct (map oid pl) \<Longrightarrow> i < length pl \<Longrightarrow>
   py_remove same_object (pl ! i) pl = Inr (take i pl @ drop (Suc i) pl)"
proof (induction pl arbitrary: i)
  case Nil
  then show ?case by simp
next
  case (Cons p pl)
  show ?case
  proof (cases i)
    case 0
    then show ?thesis by (simp add: same_object_def)
  next
    case (Suc j)
    with Cons.prems have j: "j < length pl" and d: "distinct (map oid pl)"
      and "oid p \<notin> oid ` set pl" by auto
    then have "oid p \<noteq> oid (pl ! j)" by (metis imageI nth_mem)
    with Cons.IH [OF d j] Suc show ?thesis by (simp add: same_object_def)
  qed
qed

lemma distinct_map_without_nth:
  "distinct (map f xs) \<Longrightarrow> distinct (map f (take i xs @ drop (Suc i) xs))"
proof (induction xs arbitrary: i)
  case Nil
  then show ?case by simp
next
  case (Cons x xs)
  show ?case
  proof (cases i)
    case 0
    with Cons.prems show ?thesis by simp
  next
    case (Suc j)
    have "set (take j xs @ drop (Suc j) xs) \<subseteq> set xs"
      by (auto dest: in_set_takeD in_set_dropD)
    with Cons.prems Cons.IH [of j] Suc show ?thesis by auto
  qed
qed

lemma remove_loop_sweep:
  "distinct (map oid pl) \<Longrightarrow>
   remove_loop i pl new_list =
     Inr (take i pl @ fst (sweep (drop i pl) new_list), snd (sweep (drop i pl) new_list))"
proof (induction i pl new_list rule: remove_loop.induct)
  case (1 i pl new_list)
  show ?case
  proof (cases "i < length pl")
    case False
    then show ?thesis by (simp add: remove_loop.simps [of i pl])
  next
    case len: True
    define p where "p = pl ! i"
    have dr: "drop i pl = p # drop (Suc i) pl"
      using len by (simp add: p_def Cons_nth_drop_Suc)
    show ?thesis
    proof (cases "player_name p \<in> set new_list")
      case True
      have "remove_loop i pl new_list = remove_loop (Suc i) pl (remove1 (player_name p) new_list)"
        using len True by (simp add: remove_loop.simps [of i pl] p_def [symmetric] py_remove_eq)
      also have "\<dots> = Inr (take (Suc i) pl @ fst (sweep (drop (Suc i) pl) (remove1 (player_name p) new_list)),
                          snd (sweep (drop (Suc i) pl) (remove1 (player_name p) new_list)))"
        using "1.IH" [of p pl "remove1 (player_name p) new_list"] len True "1.prems"
        by (simp add: p_def py_remove_eq)
      also have "\<dots> = Inr (take i pl @ fst (sweep (drop i pl) new_list), snd (sweep (drop i pl) new_list))"
        using True len by (simp add: dr take_Suc_conv_app_nth p_def)
      finally show ?thesis .
    next
      case False
      define pl1 where "pl1 = take i pl @ drop (Suc i) pl"
      have rm: "py_remove same_object p pl = Inr pl1"
        using py_remove_same_object_nth [OF "1.prems" len] by (simp add: p_def pl1_def)
      have d1: "distinct (map oid pl1)"
        using "1.prems" unfolding pl1_def by (rule distinct_map_without_nth)
      have "remove_loop i pl new_list = remove_loop (Suc i) pl1 new_list"
        using len False rm by (simp add: remove_loop.simps [of i pl] p_def [symmetric])
      also have "\<dots> = Inr (take (Suc i) pl1 @ fst (sweep (drop (Suc i) pl1) new_list),
                          snd (sweep (drop (Suc i) pl1) new_list))"
        using "1.IH" [of p pl1 new_list] len False rm d1 by (simp add: p_def)
      also have "\<dots> = Inr (take i pl @ fst (sweep (drop i pl) new_list), snd (sweep (drop i pl) new_list))"
      proof (cases "drop (Suc i) pl")
        case Nil
        then show ?thesis using False len by (simp add: dr pl1_def)
      next
        case (Cons q qs)
        have "length (take i pl) = i" using len by simp
        then have "take (Suc i) pl1 = take i pl @ [q]" "drop (Suc i) pl1 = qs"
          unfolding pl1_def Cons by (simp_all add: Suc_diff_le)
        then show ?thesis using False by (simp add: dr Cons)
      qed
      finally show ?thesis .
    qed
  qed
qed


lemma sweep_subseq: "subseq (fst (sweep pl new_list)) pl"
proof (induction pl new_list rule: sweep.induct)
  case (1 new_list)
  then show ?case by simp
next
  case (2 p ps new_list)
  show ?case
  proof (cases "player_name p \<in> set new_list")
    case True
    with 2 show ?thesis by simp
  next
    case False
    show ?thesis
    proof (cases ps)
      case Nil
      with False show ?thesis by simp
    next
      case (Cons q qs)
      with "2.IH"(3) [OF False Cons] False show ?thesis by (auto intro: list_emb_Cons)
    qed
  qed
qed

lemma sweep_rest_subset: "set (snd (sweep pl new_list)) \<subseteq> set new_list"
proof (induction pl new_list rule: sweep.induct)
  case (1 new_list)
  then show ?case by simp
next
  case (2 p ps new_list)
  show ?case
  proof (cases "player_name p \<in> set new_list")
    case True
    with 2 have "set (snd (sweep ps (remove1 (player_name p) new_list)))
                   \<subseteq> set (remove1 (player_name p) new_list)" by simp
    also have "\<dots> \<subseteq> set new_list" by (rule set_remove1_subset)
    finally show ?thesis using True by simp
  next
    case False
    with 2 show ?thesis by (cases ps) auto
  qed
qed

lemma sweep_rest_untracked:
  "n \<in> set new_list \<Longrightarrow> n \<notin> player_name ` set pl \<Longrightarrow> n \<in> set (snd (sweep pl new_list))"
proof (induction pl new_list rule: sweep.induct)
  case (1 new_list)
  then show ?case by simp
next
  case (2 p ps new_list)
  show ?case
  proof (cases "player_name p \<in> set new_list")
    case True
    from "2.prems" have "n \<noteq> player_name p" by auto
    with "2.prems" have "n \<in> set (remove1 (player_name p) new_list)" by simp
    with 2 True show ?thesis by simp
  next
    case False
    with 2 show ?thesis by (cases ps) auto
  qed
qed

lemma sweep_removes_absent:
  "distinct (map player_name pl) \<Longrightarrow> no_adjacent_absent S pl \<Longrightarrow>
   (\<forall>p \<in> set pl. (player_name p \<in> set new_list) = (player_name p \<in> set S)) \<Longrightarrow>
   fst (sweep pl new_list) = filter (\<lambda>p. player_name p \<in> set S) pl"
proof (induction pl new_list rule: sweep.induct)
  case (1 new_list)
  then show ?case by simp
next
  case (2 p ps new_list)
  show ?case
  proof (cases "player_name p \<in> set new_list")
    case True
    have d: "distinct (map player_name ps)" using "2.prems" by simp
    have na: "no_adjacent_absent S ps" using "2.prems"(2) by (cases ps) auto
    have "\<forall>q \<in> set ps. (player_name q \<in> set (remove1 (player_name p) new_list))
                          = (player_name q \<in> set S)"
    proof
      fix q assume q: "q \<in> set ps"
      then have "player_name q \<in> set (map player_name ps)" by simp
      moreover have "player_name p \<notin> set (map player_name ps)" using "2.prems"(1) by simp
      ultimately have "player_name q \<noteq> player_name p" by metis
      then show "(player_name q \<in> set (remove1 (player_name p) new_list))
                   = (player_name q \<in> set S)"
        using "2.prems"(3) q by simp
    qed
    with "2.IH"(1) [OF True d na] True "2.prems"(3) show ?thesis
      by simp
  next
    case False
    then have pS: "player_name p \<notin> set S" using "2.prems"(3) by simp
    show ?thesis
    proof (cases ps)
      case Nil
      with False pS show ?thesis by simp
    next
      case (Cons q qs)
      have qS: "player_name q \<in> set S" using "2.prems"(2) pS Cons by simp
      have d: "distinct (map player_name qs)" using "2.prems"(1) Cons by simp
      have na: "no_adjacent_absent S qs" using "2.prems"(2) Cons by (cases qs) auto
      have "\<forall>r \<in> set qs. (player_name r \<in> set new_list) = (player_name r \<in> set S)"
        using "2.prems"(3) Cons by simp
      with "2.IH"(3) [OF False Cons d na] False pS qS Cons show ?thesis
        by simp
    qed
  qed
qed

lemma add_loop_appends:
  "\<exists>added. add_loop is_stopped new_list pl = pl @ added \<and>
           map player_name added = filter (\<lambda>n. \<not> is_stopped n) new_list"
proof (induction new_list arbitrary: pl)
  case Nil
  then show ?case by simp
next
  case (Cons name rest)
  show ?case
  proof (cases "is_stopped name")
    case True
    with Cons [of pl] show ?thesis by simp
  next
    case False
    from Cons [of "pl @ [Player (new_oid pl) name]"] obtain added where
      "add_loop is_stopped rest (pl @ [Player (new_oid pl) name])
         = (pl @ [Player (new_oid pl) name]) @ added"
      "map player_name added = filter (\<lambda>n. \<not> is_stopped n) rest" by blast
    with False show ?thesis
      by (intro exI [of _ "Player (new_oid pl) name # added"]) (simp add: Player_def)
  qed
qed

lemma update_player_list_sweep:
  "distinct (map oid (player_list self)) \<Longrightarrow> length S \<noteq> length (player_list self) \<Longrightarrow>
   update_player_list is_stopped S self =
     Inr (self\<lparr>player_list := add_loop is_stopped (snd (sweep (player_list self) S))
                                   (fst (sweep (player_list self) S))\<rparr>)"
proof -
  assume d: "distinct (map oid (player_list self))" and len: "length S \<noteq> length (player_list self)"
  have "add_loop is_stopped [] pl = pl" for pl by simp
  then have "(if length nl > 0 then add_loop is_stopped nl pl else pl) = add_loop is_stopped nl pl"
    for nl pl by (cases nl) simp_all
  then show ?thesis
    using len by (simp add: update_player_list_def remove_loop_sweep [OF d] case_prod_beta)
qed


lemma oid_less_new_oid: "p \<in> set pl \<Longrightarrow> oid p < new_oid pl"
  by (induction pl) (auto simp: new_oid_def)

lemma add_loop_distinct:
  "distinct (map oid pl) \<Longrightarrow> distinct (map oid (add_loop is_stopped new_list pl))"
proof (induction new_list arbitrary: pl)
  case Nil
  then show ?case by simp
next
  case (Cons name rest)
  have "\<forall>q \<in> set pl. oid q \<noteq> new_oid pl"
  proof
    fix q assume "q \<in> set pl"
    then show "oid q \<noteq> new_oid pl" using oid_less_new_oid [of q pl] by simp
  qed
  then have "oid (Player (new_oid pl) name) \<notin> oid ` set pl"
    by (auto simp: Player_def)
  with Cons.prems have "distinct (map oid (pl @ [Player (new_oid pl) name]))" by simp
  with Cons show ?case by simp
qed

lemma update_player_list_order:
  assumes "distinct (map oid (player_list self))"
  shows "\<exists>kept added.
           update_player_list is_stopped S self = Inr (self\<lparr>player_list := kept @ added\<rparr>) \<and>
           subseq kept (player_list self) \<and>
           set (map player_name added) \<subseteq> set S \<and>
           distinct (map oid (kept @ added))"
proof (cases "length S = length (player_list self)")
  case True
  then have "update_player_list is_stopped S self = Inr (self\<lparr>player_list := player_list self @ []\<rparr>)"
    by (simp add: update_player_list_def)
  with assms show ?thesis by (metis append_Nil2 empty_subsetI list.simps(8) set_empty subseq_order.order_refl)
next
  case False
  define kept where "kept = fst (sweep (player_list self) S)"
  define rest where "rest = snd (sweep (player_list self) S)"
  obtain added where added: "add_loop is_stopped rest kept = kept @ added"
    "map player_name added = filter (\<lambda>n. \<not> is_stopped n) rest"
    using add_loop_appends by blast
  have sub: "subseq kept (player_list self)"
    unfolding kept_def by (rule sweep_subseq)
  then have "distinct (map oid kept)"
    using assms by (metis in_set_subseqs subseqs_distinctD subseq_map)
  then have "distinct (map oid (kept @ added))"
    using add_loop_distinct [of kept is_stopped rest] added(1) by simp
  moreover have "set (map player_name added) \<subseteq> set S"
    using added(2) sweep_rest_subset [of "player_list self" S] by (auto simp: rest_def)
  moreover have "update_player_list is_stopped S self = Inr (self\<lparr>player_list := kept @ added\<rparr>)"
    using update_player_list_sweep [OF assms False, of is_stopped] added(1)
    by (simp add: kept_def rest_def)
  ultimately show ?thesis using sub by blast
qed

text \<open>
  When every tracked player but possibly the last is in the snapshot, no removal is
  followed by another player, so the iterator passes over nothing. Then a second call
  with the same snapshot and the same statuses changes nothing.
\<close>

lemma no_adjacent_absent_butlast:
  "\<forall>p \<in> set (butlast pl). player_name p \<in> set S \<Longrightarrow> no_adjacent_absent S pl"
  by (induction S pl rule: no_adjacent_absent.induct) (auto split: if_splits)

lemma sweep_rest_without_skip:
  "distinct (map player_name pl) \<Longrightarrow> distinct new_list \<Longrightarrow>
   \<forall>p \<in> set (butlast pl). player_name p \<in> set new_list \<Longrightarrow>
   set (snd (sweep pl new_list)) = set new_list - player_name ` set pl"
proof (induction pl new_list rule: sweep.induct)
  case (1 new_list)
  then show ?case by simp
next
  case (2 p ps new_list)
  show ?case
  proof (cases "player_name p \<in> set new_list")
    case True
    have d: "distinct (map player_name ps)" using "2.prems"(1) by simp
    have dn: "distinct (remove1 (player_name p) new_list)" using "2.prems"(2) by simp
    have "\<forall>q \<in> set (butlast ps). player_name q \<in> set (remove1 (player_name p) new_list)"
    proof
      fix q assume q: "q \<in> set (butlast ps)"
      then have qps: "q \<in> set ps" by (rule in_set_butlastD)
      then have "player_name q \<in> set (map player_name ps)" by simp
      moreover have "player_name p \<notin> set (map player_name ps)" using "2.prems"(1) by simp
      ultimately have "player_name q \<noteq> player_name p" by metis
      moreover have "player_name q \<in> set new_list"
        using "2.prems"(3) q by (cases ps) auto
      ultimately show "player_name q \<in> set (remove1 (player_name p) new_list)" by simp
    qed
    with "2.IH"(2) [OF True d dn] have
      "set (snd (sweep ps (remove1 (player_name p) new_list)))
         = set (remove1 (player_name p) new_list) - player_name ` set ps" .
    then show ?thesis using True "2.prems"(2) by (auto simp: set_remove1_eq)
  next
    case False
    then have "ps = []" using "2.prems"(3) by (cases ps) auto
    with False show ?thesis by simp
  qed
qed

lemma add_loop_all_stopped:
  "\<forall>n \<in> set new_list. is_stopped n \<Longrightarrow> add_loop is_stopped new_list pl = pl"
  by (induction new_list) simp_all

lemma update_player_list_twice_without_skip:
  assumes oids: "distinct (map oid (player_list self))"
    and names: "distinct (map player_name (player_list self))"
    and S: "distinct S"
    and present: "\<forall>p \<in> set (butlast (player_list self)). player_name p \<in> set S"
  shows "\<exists>self1. update_player_list is_stopped S self = Inr self1 \<and>
                 update_player_list is_stopped S self1 = Inr self1"
proof (cases "length S = length (player_list self)")
  case True
  then show ?thesis by (simp add: update_player_list_def)
next
  case False
  define pl where "pl = player_list self"
  define kept where "kept = fst (sweep pl S)"
  define rest where "rest = snd (sweep pl S)"
  have kept: "kept = filter (\<lambda>p. player_name p \<in> set S) pl"
    unfolding kept_def pl_def using names present
    by (intro sweep_removes_absent no_adjacent_absent_butlast) simp_all
  have rest: "set rest = set S - player_name ` set pl"
    unfolding rest_def pl_def using names S present by (rule sweep_rest_without_skip)
  obtain added where added: "add_loop is_stopped rest kept = kept @ added"
    "map player_name added = filter (\<lambda>n. \<not> is_stopped n) rest"
    using add_loop_appends by blast
  define self1 where "self1 = self\<lparr>player_list := kept @ added\<rparr>"
  have first: "update_player_list is_stopped S self = Inr self1"
    using update_player_list_sweep [OF oids False, of is_stopped] added(1)
    by (simp add: self1_def kept_def rest_def pl_def)
  have pl1: "player_list self1 = kept @ added" by (simp add: self1_def)
  have "subseq kept (player_list self)"
    unfolding kept_def pl_def by (rule sweep_subseq)
  then have "distinct (map oid kept)"
    using oids by (metis in_set_subseqs subseqs_distinctD subseq_map)
  then have "distinct (map oid (add_loop is_stopped rest kept))"
    by (rule add_loop_distinct)
  then have oids1: "distinct (map oid (player_list self1))"
    using added(1) pl1 by simp
  have drest: "distinct rest"
  proof -
    have "distinct (snd (sweep ps nl))" if "distinct nl" for ps nl
      using that by (induction ps nl rule: sweep.induct) (auto split: list.splits)
    then show ?thesis using S by (simp add: rest_def)
  qed
  have names1: "distinct (map player_name (player_list self1))"
  proof -
    have "distinct (map player_name kept)"
      unfolding kept using names by (simp add: pl_def distinct_map_filter)
    moreover have "distinct (map player_name added)"
      using added(2) drest by simp
    moreover have "set (map player_name kept) \<inter> set (map player_name added) = {}"
      using added(2) rest unfolding kept by auto
    ultimately show ?thesis by (simp add: pl1)
  qed
  have all1: "\<forall>p \<in> set (player_list self1). player_name p \<in> set S"
  proof
    fix p assume "p \<in> set (player_list self1)"
    then consider "p \<in> set kept" | "p \<in> set added" by (auto simp: pl1)
    then show "player_name p \<in> set S"
    proof cases
      case 1
      then show ?thesis by (simp add: kept)
    next
      case 2
      then have "player_name p \<in> set (map player_name added)" by simp
      then show ?thesis using added(2) rest by auto
    qed
  qed
  show ?thesis
  proof (cases "length S = length (player_list self1)")
    case True
    then have "update_player_list is_stopped S self1 = Inr self1"
      by (simp add: update_player_list_def)
    with first show ?thesis by blast
  next
    case ne: False
    have bl: "\<forall>p \<in> set (butlast (player_list self1)). player_name p \<in> set S"
      using all1 by (auto dest: in_set_butlastD)
    have k1: "fst (sweep (player_list self1) S) = player_list self1"
    proof -
      have "fst (sweep (player_list self1) S)
              = filter (\<lambda>p. player_name p \<in> set S) (player_list self1)"
        using names1 bl by (intro sweep_removes_absent no_adjacent_absent_butlast) simp_all
      also have "\<dots> = player_list self1" using all1 by simp
      finally show ?thesis .
    qed
    have r1: "set (snd (sweep (player_list self1) S)) = set S - player_name ` set (player_list self1)"
      using names1 S bl by (rule sweep_rest_without_skip)
    have "\<forall>n \<in> set (snd (sweep (player_list self1) S)). is_stopped n"
    proof
      fix n assume "n \<in> set (snd (sweep (player_list self1) S))"
      then have nS: "n \<in> set S" and n1: "n \<notin> player_name ` set (player_list self1)"
        using r1 by auto
      from n1 have nk: "n \<notin> player_name ` set kept" and na: "n \<notin> set (map player_name added)"
        by (auto simp: pl1)
      from nk nS have "n \<notin> player_name ` set pl" unfolding kept by auto
      with nS have "n \<in> set rest" using rest by simp
      with na show "is_stopped n" using added(2) by auto
    qed
    then have "add_loop is_stopped (snd (sweep (player_list self1) S)) (player_list self1)
                 = player_list self1"
      by (rule add_loop_all_stopped)
    then have "update_player_list is_stopped S self1 = Inr self1"
      using update_player_list_sweep [OF oids1 ne, of is_stopped] k1 by simp
    with first show ?thesis by blast
  qed
qed

text \<open>
  C1 (as amended). When the snapshot has another number of identifiers than the registry
  has players, the tracked players have pairwise different identifiers and no two
  neighbouring tracked players are both absent from the snapshot, reconciliation removes
  every tracked player whose identifier is absent from the snapshot and keeps the others,
  and the identifiers in the registry are then exactly those of the snapshot without the
  untracked identifiers that are Stopped at that call.
\<close>

theorem update_player_list_removes_absent:
  assumes "distinct (map oid (player_list self))"
    and "distinct (map player_name (player_list self))"
    and "length S \<noteq> length (player_list self)"
    and "no_adjacent_absent S (player_list self)"
  shows "\<exists>added.
           update_player_list is_stopped S self =
             Inr (self\<lparr>player_list :=
                         filter (\<lambda>p. player_name p \<in> set S) (player_list self) @ added\<rparr>) \<and>
           set (map player_name
                  (filter (\<lambda>p. player_name p \<in> set S) (player_list self) @ added)) =
             {n \<in> set S. n \<in> set (map player_name (player_list self)) \<or> \<not> is_stopped n}"
proof -
  define kept where "kept = fst (sweep (player_list self) S)"
  define rest where "rest = snd (sweep (player_list self) S)"
  have kept: "kept = filter (\<lambda>p. player_name p \<in> set S) (player_list self)"
    unfolding kept_def using assms(2,4) by (intro sweep_removes_absent) simp_all
  obtain added where added: "add_loop is_stopped rest kept = kept @ added"
    "map player_name added = filter (\<lambda>n. \<not> is_stopped n) rest"
    using add_loop_appends by blast
  have upd: "update_player_list is_stopped S self = Inr (self\<lparr>player_list := kept @ added\<rparr>)"
    using update_player_list_sweep [OF assms(1,3), of is_stopped] added(1)
    by (simp add: kept_def rest_def)
  have r1: "set rest \<subseteq> set S"
    unfolding rest_def by (rule sweep_rest_subset)
  have r2: "n \<in> set rest" if "n \<in> set S" "n \<notin> player_name ` set (player_list self)" for n
    unfolding rest_def using that by (rule sweep_rest_untracked)
  have "set (map player_name added) = {n \<in> set rest. \<not> is_stopped n}"
    using added(2) by auto
  moreover have "set (map player_name kept) = {n \<in> set S. n \<in> player_name ` set (player_list self)}"
    unfolding kept by auto
  ultimately have "set (map player_name (kept @ added)) =
      {n \<in> set S. n \<in> set (map player_name (player_list self)) \<or> \<not> is_stopped n}"
    using r1 r2 by auto
  with upd show ?thesis unfolding kept by blast
qed

theorem update_player_list_removes_absent_witness:
  "distinct (map oid (player_list tracking_a_b)) \<and>
   distinct (map player_name (player_list tracking_a_b)) \<and>
   length [ustr ''a'', ustr ''c'', ustr ''d''] \<noteq> length (player_list tracking_a_b) \<and>
   no_adjacent_absent [ustr ''a'', ustr ''c'', ustr ''d''] (player_list tracking_a_b) \<and>
   (\<exists>added.
      update_player_list nothing_stopped [ustr ''a'', ustr ''c'', ustr ''d''] tracking_a_b =
        Inr (tracking_a_b\<lparr>player_list :=
               filter (\<lambda>p. player_name p \<in> set [ustr ''a'', ustr ''c'', ustr ''d''])
                 (player_list tracking_a_b) @ added\<rparr>) \<and>
      set (map player_name
             (filter (\<lambda>p. player_name p \<in> set [ustr ''a'', ustr ''c'', ustr ''d''])
                (player_list tracking_a_b) @ added)) =
        {n \<in> set [ustr ''a'', ustr ''c'', ustr ''d''].
           n \<in> set (map player_name (player_list tracking_a_b)) \<or> \<not> nothing_stopped n})"
proof -
  have h1: "distinct (map oid (player_list tracking_a_b))" by code_simp
  have h2: "distinct (map player_name (player_list tracking_a_b))" by code_simp
  have h3: "length [ustr ''a'', ustr ''c'', ustr ''d''] \<noteq> length (player_list tracking_a_b)"
    by code_simp
  have h4: "no_adjacent_absent [ustr ''a'', ustr ''c'', ustr ''d''] (player_list tracking_a_b)"
    by code_simp
  show ?thesis
    using h1 h2 h3 h4 update_player_list_removes_absent [OF h1 h2 h3 h4, of nothing_stopped]
    by blast
qed

text \<open>
  C1 as stated fails: the registry tracks \<open>a\<close>, the snapshot is \<open>[b]\<close>; both have one
  element, so the call changes nothing and \<open>a\<close>, absent from the snapshot, is still
  tracked.
\<close>

theorem update_player_list_keeps_absent_player:
  "update_player_list nothing_stopped [ustr ''a''] PolyPlay = Inr tracking_a \<and>
   update_player_list nothing_stopped [ustr ''b''] tracking_a = Inr tracking_a \<and>
   map player_name (player_list tracking_a) = [ustr ''a''] \<and>
   ustr ''a'' \<notin> set [ustr ''b'']"
  by code_simp

text \<open>
  C9. When the snapshot has exactly as many identifiers as the registry has players,
  reconciliation leaves the registry as it is, whatever the identifiers are.
\<close>

theorem update_player_list_same_length:
  "length available_players = length (player_list self) \<Longrightarrow>
   update_player_list is_stopped available_players self = Inr self"
  by (simp add: update_player_list_def)

theorem update_player_list_same_length_witness:
  "length [ustr ''c'', ustr ''d''] = length (player_list tracking_a_b) \<and>
   update_player_list nothing_stopped [ustr ''c'', ustr ''d''] tracking_a_b = Inr tracking_a_b"
proof -
  have h: "length [ustr ''c'', ustr ''d''] = length (player_list tracking_a_b)" by code_simp
  show ?thesis using h update_player_list_same_length [OF h] by simp
qed

text \<open>
  C5, at the input where it fails. The registry tracks \<open>a\<close> and \<open>b\<close> and the snapshot
  is empty: the first call removes \<open>a\<close> and passes over \<open>b\<close>, the second call with the
  same snapshot removes \<open>b\<close>. The second call changes the registry.
  (\<open>update_player_list_twice_without_skip\<close> above: the second call changes nothing
  when the iterator passes over no player.)
\<close>

theorem update_player_list_twice_differs:
  "update_player_list nothing_stopped [ustr ''a'', ustr ''b''] PolyPlay = Inr tracking_a_b \<and>
   update_player_list nothing_stopped [] tracking_a_b = Inr tracking_b \<and>
   update_player_list nothing_stopped [] tracking_b = Inr PolyPlay \<and>
   tracking_b \<noteq> PolyPlay"
  by code_simp

text \<open>
  C8, at the input where it fails. The registry tracks \<open>a\<close> and \<open>b\<close> and the snapshot
  is \<open>[b]\<close>: \<open>a\<close> is removed, the iterator passes over \<open>b\<close>, so \<open>b\<close> stays in
  \<open>new_list\<close> and a second \<open>Player\<close> named \<open>b\<close> is created and appended.
  (\<open>update_player_list_order\<close> above is the part that always holds: the players kept
  stay in their order and what is added comes after them.)
\<close>

theorem update_player_list_recreates_tracked:
  "update_player_list nothing_stopped [ustr ''b''] tracking_a_b =
     Inr \<lparr> player_list = [Player 2 (ustr ''b''), Player 3 (ustr ''b'')], display_index = 0 \<rparr>"
  by code_simp

section \<open>Selecting the player to display\<close>

lemma py_getitem_in_range:
  "0 \<le> i \<Longrightarrow> i < int (length xs) \<Longrightarrow> py_getitem xs i = Inr (xs ! nat i)"
  by (simp add: py_getitem_def)

text \<open>
  C3 (as amended). For every registry and every index (so after any sequence
  of cycle calls and registry changes), selecting returns none exactly when the registry
  is empty, never reads outside the registry, and returns the player at position
  \<open>index mod len\<close> when the index is not negative and at position \<open>len - 1\<close> when it
  is negative; the index is left at that position.
\<close>

theorem select_player_to_display_position:
  "(fst (select_player_to_display self) = Inr None \<longleftrightarrow> player_list self = []) \<and>
   (player_list self \<noteq> [] \<longrightarrow>
      (let n = int (length (player_list self));
           pos = (if display_index self < 0 then n - 1 else display_index self mod n)
       in 0 \<le> pos \<and> pos < n \<and>
          select_player_to_display self =
            (Inr (Some (player_list self ! nat pos)), self\<lparr>display_index := pos\<rparr>)))"
proof (cases "player_list self")
  case Nil
  then show ?thesis by (simp add: select_player_to_display_def)
next
  case (Cons p ps)
  define n where "n = int (length (player_list self))"
  define pos where "pos = (if display_index self < 0 then n - 1 else display_index self mod n)"
  have n1: "1 \<le> n" using Cons by (simp add: n_def)
  have range: "0 \<le> pos" "pos < n" using n1 by (auto simp: pos_def)
  have sel: "select_player_to_display self =
               (Inr (Some (player_list self ! nat pos)), self\<lparr>display_index := pos\<rparr>)"
  proof (cases "n = 1")
    case True
    then have "length (player_list self) = 1" by (simp add: n_def)
    moreover have "pos = 0" using True by (simp add: pos_def)
    ultimately show ?thesis
      by (simp add: select_player_to_display_def py_getitem_def)
  next
    case False
    with n1 have n2: "2 \<le> n" by simp
    then have len: "\<not> length (player_list self) < 1" "length (player_list self) \<noteq> 1"
      by (auto simp: n_def)
    consider "display_index self < 0" | "0 \<le> display_index self" "display_index self < n - 1"
      | "n - 1 \<le> display_index self" by linarith
    then show ?thesis
    proof cases
      case 1
      then show ?thesis using len n2 range
        by (simp add: select_player_to_display_def Let_def py_getitem_in_range pos_def n_def [symmetric])
    next
      case 2
      then have "pos = display_index self" by (simp add: pos_def)
      then show ?thesis using 2 len n2 range(1)
        by (simp add: select_player_to_display_def Let_def py_getitem_in_range n_def [symmetric])
    next
      case 3
      then have "pos = display_index self mod n" using n2 by (simp add: pos_def)
      moreover have n0: "0 < n" using n2 by simp
      ultimately show ?thesis using 3 len range
        by (simp add: select_player_to_display_def Let_def py_getitem_in_range n_def [symmetric]
              not_less [symmetric])
    qed
  qed
  have ne: "player_list self \<noteq> []" using Cons by simp
  show ?thesis
    unfolding Let_def n_def [symmetric] pos_def [symmetric] using ne range sel by simp
qed

theorem select_player_to_display_position_witness:
  "player_list (tracking_a_b_c\<lparr>display_index := 4\<rparr>) \<noteq> [] \<and>
   select_player_to_display (tracking_a_b_c\<lparr>display_index := 4\<rparr>) =
     (Inr (Some (Player 2 (ustr ''b''))), tracking_a_b_c\<lparr>display_index := 1\<rparr>)"
proof -
  have h: "player_list (tracking_a_b_c\<lparr>display_index := 4\<rparr>) \<noteq> []" by code_simp
  have "select_player_to_display (tracking_a_b_c\<lparr>display_index := 4\<rparr>) =
          (Inr (Some (player_list (tracking_a_b_c\<lparr>display_index := 4\<rparr>) ! nat 1)),
           tracking_a_b_c\<lparr>display_index := 4\<rparr>\<lparr>display_index := 1\<rparr>)"
    using h select_player_to_display_position [of "tracking_a_b_c\<lparr>display_index := 4\<rparr>"]
    by (simp add: tracking_a_b_c_def)
  then show ?thesis using h by (simp add: tracking_a_b_c_def)
qed

text \<open>
  C3 as stated fails on a negative index: with three players and two backward cycles
  from index 0 the index is -2, and -2 mod 3 is 1, but the player returned is the one
  at position 2, not the one at position 1.
\<close>

theorem select_player_to_display_negative_index:
  "display_index (reverse_cycle_player (reverse_cycle_player tracking_a_b_c)) = - 2 \<and>
   length (player_list (reverse_cycle_player (reverse_cycle_player tracking_a_b_c))) = 3 \<and>
   (- 2) mod (3 :: int) = 1 \<and>
   fst (select_player_to_display (reverse_cycle_player (reverse_cycle_player tracking_a_b_c)))
     = Inr (Some (Player 3 (ustr ''c''))) \<and>
   player_list tracking_a_b_c ! 1 = Player 2 (ustr ''b'') \<and>
   player_list tracking_a_b_c ! 2 = Player 3 (ustr ''c'') \<and>
   Player 3 (ustr ''c'') \<noteq> Player 2 (ustr ''b'')"
  by code_simp

section \<open>Scrolling text\<close>

lemma length_py_slice_nonneg:
  "0 \<le> a \<Longrightarrow> a \<le> b \<Longrightarrow>
   length (py_slice xs a b) = min (nat b) (length xs) - min (nat a) (length xs)"
  by (auto simp: py_slice_def slice_bound_def Let_def)

lemma length_py_slice_to_nonneg:
  "0 \<le> b \<Longrightarrow> length (py_slice_to xs b) = min (nat b) (length xs)"
  by (simp add: py_slice_to_nonneg)

lemma update_scrolling_text_length_fits:
  assumes o0: "0 \<le> display_text_start_index p"
    and on: "display_text_start_index p < int (length md) + 2"
    and w0: "0 \<le> scrolling_msg_len cfg"
    and wn: "scrolling_msg_len cfg \<le> int (length md) + 2"
  shows "length (fst (update_scrolling_text cfg True md p)) = nat (scrolling_msg_len cfg)"
proof -
  define full where "full = md @ py_repeat (ustr '' '') 2"
  define off where "off = display_text_start_index p"
  define w where "w = scrolling_msg_len cfg"
  define n where "n = int (length full)"
  have n: "n = int (length md) + 2" by (simp add: n_def full_def)
  define first where "first = py_slice full off (off + w)"
  define padding where
    "padding = (if int (length first) < w then py_slice_to full ((off + w) mod n) else [])"
  have res: "fst (update_scrolling_text cfg True md p) = first @ padding"
    by (simp add: update_scrolling_text_def Let_def first_def padding_def full_def off_def
          w_def n_def)
  have lf: "length first = min (nat (off + w)) (length full) - nat off"
    using o0 w0 on n unfolding first_def off_def w_def n_def
    by (subst length_py_slice_nonneg) auto
  show ?thesis
  proof (cases "off + w \<le> n")
    case True
    then have "length first = nat w"
      using lf o0 w0 by (simp add: n_def off_def w_def min_def) linarith
    then show ?thesis using res w0 by (simp add: padding_def w_def)
  next
    case False
    then have l1: "int (length first) = n - off"
      using lf o0 on n by (simp add: n_def off_def min_def)
    have c: "0 \<le> off + w - n" and d: "off + w - n < n"
      using False on wn n by (simp_all add: off_def w_def)
    have "(off + w - n) mod n = off + w - n"
      using c d by (rule mod_pos_pos_trivial)
    moreover have "(off + w - n) mod n = (off + w) mod n"
      by (rule minus_mod_self2)
    ultimately have m: "(off + w) mod n = off + w - n" by simp
    have "int (length first) < w" using l1 False by simp
    then have "padding = py_slice_to full (off + w - n)"
      by (simp add: padding_def m)
    then have "length padding = min (nat (off + w - n)) (length full)"
      using c by (simp add: length_py_slice_to_nonneg)
    also have "\<dots> = nat (off + w - n)"
      using d unfolding n_def by linarith
    finally have "int (length padding) = off + w - n"
      using c by simp
    with l1 have "int (length (first @ padding)) = w" by simp
    then show ?thesis using res by (simp add: w_def)
  qed
qed

text \<open>
  C2, at the input where it fails. The record \<open>a,b,u\<close> gives the text \<open>a - b\<close>; with the
  two spaces it has 7 characters, fewer than the window of 15. At offset 0 the window
  takes all 7, and the padding is the first \<open>15 mod 7 = 1\<close> character: the string
  produced has 8 characters, not 15. (\<open>update_scrolling_text_length_fits\<close> above: the
  length is the window length when the window is no longer than the text with its
  separator and the offset is inside it.)
\<close>

theorem update_scrolling_text_short_text:
  "metadata Config True (ustr ''a,b,u'') = ustr ''a - b'' \<and>
   fst (update_scrolling_text Config True (ustr ''a - b'') (Player 1 (ustr ''vlc'')))
     = ustr ''a - b  a'' \<and>
   length (fst (update_scrolling_text Config True (ustr ''a - b'') (Player 1 (ustr ''vlc'')))) = 8 \<and>
   scrolling_msg_len Config = 15"
  by code_simp

section \<open>Metadata\<close>

lemma metadata_malformed:
  "length (py_split (of_char CHR '','') raw) < 3 \<Longrightarrow>
   metadata cfg True raw = center_text (error_text cfg) (scrolling_msg_len cfg)"
  by (simp add: metadata_def)

lemma metadata_well_formed_hyphen:
  "\<not> length (py_split (of_char CHR '','') raw) < 3 \<Longrightarrow>
   of_char CHR ''-'' \<in> set (metadata cfg True raw)"
  by (simp add: metadata_def Let_def ustr_def)

lemma metadata_empty_title_verbatim_url:
  assumes "\<not> length (py_split (of_char CHR '','') raw) < 3"
    and "hd (py_split (of_char CHR '','') raw) = []"
    and "\<not> english_text_only cfg"
  shows "metadata cfg True raw =
           last (py_split (of_char CHR '','') raw) @ ustr '' - '' @
           py_join (ustr '','') (butlast (tl (py_split (of_char CHR '','') raw)))"
  using assms by (simp add: metadata_def Let_def)

text \<open>
  The first field of every record the metadata query returns starts with the quote of
  the format string, so it is never empty and the line
  \<^verbatim>\<open>title = title if title != "" else vlc_title\<close> never takes the URL field.
\<close>

lemma py_split_hd_not_separator:
  "c \<noteq> sep \<Longrightarrow> hd (py_split sep (c # cs)) \<noteq> []"
  by (simp split: list.splits)

lemma playerctl_record_title_not_empty:
  "hd (py_split (of_char CHR '','') (playerctl_record title artist url)) \<noteq> []"
  unfolding playerctl_record_def by (rule py_split_hd_not_separator) simp

text \<open>
  C6, at the input where it fails. A player reports an empty title, the artist
  \<open>Artist One\<close> and the URL \<open>file:///home/x/Song%20Title.mp3\<close>. The record has three
  fields, the first being the quote alone, and the title displayed is that quote: the
  URL field is not used. \<open>clean_track_title\<close>, which nothing calls, gives
  \<open>Song Title.mp3\<close> for this URL.
  (\<open>metadata_empty_title_verbatim_url\<close> above: a record whose first field were empty
  would show the URL field as it is, with its \<open>%20\<close> and its whole path.)
\<close>

theorem metadata_empty_title_shows_quote:
  "playerctl_record [] (ustr ''Artist One'') (ustr ''file:///home/x/Song%20Title.mp3'')
     = of_char (CHR 0x27) # ustr '',Artist One,file:///home/x/Song%20Title.mp3''
         @ [of_char (CHR 0x0A)] \<and>
   length (py_split (of_char CHR '','')
             (playerctl_record [] (ustr ''Artist One'')
                (ustr ''file:///home/x/Song%20Title.mp3''))) = 3 \<and>
   metadata Config True
       (playerctl_record [] (ustr ''Artist One'') (ustr ''file:///home/x/Song%20Title.mp3''))
     = of_char (CHR 0x27) # ustr '' - Artist One'' \<and>
   clean_track_title (ustr ''file:///home/x/Song%20Title.mp3'') = ustr ''Song Title.mp3''"
  by code_simp

text \<open>
  C7 (as amended). A record with fewer than 3 comma-separated fields yields the centred
  error placeholder; a record with at least 3 fields yields \<open>title - artists\<close>, which is
  not the centred placeholder whenever the placeholder contains no hyphen (as the
  configured "error text"), so that for such a placeholder the result is the placeholder
  if and only if the record has fewer than 3 fields. The record
  "Song Title,Artist One,file:///home/x/Song%20Title.mp3" yields "Song Title - Artist One"
  and the record "a,b" yields the placeholder.
\<close>

theorem metadata_error_placeholder:
  "(length (py_split (of_char CHR '','') raw) < 3 \<longrightarrow>
      metadata cfg True raw = center_text (error_text cfg) (scrolling_msg_len cfg)) \<and>
   (of_char CHR ''-'' \<notin> set (center_text (error_text cfg) (scrolling_msg_len cfg)) \<longrightarrow>
      (metadata cfg True raw = center_text (error_text cfg) (scrolling_msg_len cfg))
        = (length (py_split (of_char CHR '','') raw) < 3)) \<and>
   metadata Config True (ustr ''Song Title,Artist One,file:///home/x/Song%20Title.mp3'')
     = ustr ''Song Title - Artist One'' \<and>
   metadata Config True (ustr ''a,b'')
     = center_text (error_text Config) (scrolling_msg_len Config)"
proof (intro conjI impI)
  assume "length (py_split (of_char CHR '','') raw) < 3"
  then show "metadata cfg True raw = center_text (error_text cfg) (scrolling_msg_len cfg)"
    by (rule metadata_malformed)
next
  assume "of_char CHR ''-'' \<notin> set (center_text (error_text cfg) (scrolling_msg_len cfg))"
  then show "(metadata cfg True raw = center_text (error_text cfg) (scrolling_msg_len cfg))
        = (length (py_split (of_char CHR '','') raw) < 3)"
    using metadata_malformed [of raw cfg] metadata_well_formed_hyphen [of raw cfg] by metis
next
  show "metadata Config True (ustr ''Song Title,Artist One,file:///home/x/Song%20Title.mp3'')
     = ustr ''Song Title - Artist One''" by code_simp
next
  show "metadata Config True (ustr ''a,b'')
     = center_text (error_text Config) (scrolling_msg_len Config)" by code_simp
qed

theorem metadata_error_placeholder_witness:
  "length (py_split (of_char CHR '','') (ustr ''a,b'')) < 3 \<and>
   of_char CHR ''-'' \<notin> set (center_text (error_text Config) (scrolling_msg_len Config)) \<and>
   metadata Config True (ustr ''a,b'') = ustr ''  error text  '' \<and>
   (metadata Config True (ustr ''a,b'') = center_text (error_text Config) (scrolling_msg_len Config))
     = (length (py_split (of_char CHR '','') (ustr ''a,b'')) < 3)"
proof -
  have h1: "length (py_split (of_char CHR '','') (ustr ''a,b'')) < 3" by code_simp
  have h2: "of_char CHR ''-'' \<notin> set (center_text (error_text Config) (scrolling_msg_len Config))"
    by code_simp
  have h3: "center_text (error_text Config) (scrolling_msg_len Config) = ustr ''  error text  ''"
    by code_simp
  show ?thesis
    using h1 h2 h3 metadata_error_placeholder [of "ustr ''a,b''" Config] by simp
qed

text \<open>
  C7 as stated fails for a placeholder that itself reads \<open>title - artist\<close>: with the
  error text "a - b" and a window of 5, the three-field record "a,b,c" yields exactly the
  centred placeholder.
\<close>

theorem metadata_placeholder_from_three_fields:
  "metadata hyphen_config True (ustr ''a,b,c'')
     = center_text (error_text hyphen_config) (scrolling_msg_len hyphen_config) \<and>
   length (py_split (of_char CHR '','') (ustr ''a,b,c'')) = 3"
  by code_simp

end
